theory Spec2Isabelle
  imports Main "HOL-Library.AList" "HOL-Library.Multiset"
begin

section \<open>Strings\<close>

text \<open>
  The repository holds three revisions of one content script. The first has neither
  a readiness probe nor a prefix removal, and appends the menus after the orphans. The
  second adds \<^verbatim>\<open>is_document_ready\<close> and the prefix removal, inserts the menus at the
  start of the list, and runs the pipeline from listeners of history events. The third
  replaces the listeners by \<^verbatim>\<open>checkPage\<close> on a timer, with the two flags of the view
  state. The program embedded here is the third revision; its functions other than
  \<^verbatim>\<open>checkPage\<close> and \<^verbatim>\<open>startChecking\<close> are the same in the second.

  JavaScript strings are sequences of code units; titles are repository names, so a
  code unit is modelled as a \<^typ>\<open>char\<close> and a string as a \<^typ>\<open>string\<close>.
  \<^verbatim>\<open>length\<close> is the number of code units.
\<close>

text \<open>\<^verbatim>\<open>s.split(sep)\<close> for a separator of one code unit: the pieces between the
  separators, in order; the empty string gives one empty piece.\<close>

fun split :: "char \<Rightarrow> string \<Rightarrow> string list" where
  "split sep [] = [] # []"
| "split sep (c # cs) =
     (if c = sep then [] # split sep cs
      else (case split sep cs of
              [] \<Rightarrow> [c] # []
            | p # ps \<Rightarrow> (c # p) # ps))"

text \<open>\<^verbatim>\<open>const [prefix] = a\<close> and \<^verbatim>\<open>a[0]\<close>: the first element; on an empty array
  both give \<^verbatim>\<open>undefined\<close>, which as a property key reads \<^verbatim>\<open>"undefined"\<close>.\<close>

definition first_element :: "string list \<Rightarrow> string" where
  "first_element a = (case a of [] \<Rightarrow> ''undefined'' | p # _ \<Rightarrow> p)"

text \<open>The group key of a title: \<^verbatim>\<open>const [prefix] = title.split('-')\<close> in the
  grouping, \<^verbatim>\<open>title.split('-')[0]\<close> in the orphan filter.\<close>

definition prefix_of :: "string \<Rightarrow> string" where
  "prefix_of title = first_element (split CHR ''-'' title)"

text \<open>\<^verbatim>\<open>s.substring(n)\<close> for a natural number \<open>n\<close>: the code units from index \<open>n\<close> on,
  empty when \<open>n\<close> is beyond the end.\<close>

definition substring :: "string \<Rightarrow> nat \<Rightarrow> string" where
  "substring s n = drop n s"

text \<open>\<^verbatim>\<open>s.trim()\<close>: white space and line terminators are removed at both ends. In the
  range of \<^typ>\<open>char\<close> these are the code units 9 to 13, 32 and 160.\<close>

definition is_white_space :: "char \<Rightarrow> bool" where
  "is_white_space c =
     (let n = (of_char c :: nat) in (9 \<le> n \<and> n \<le> 13) \<or> n = 32 \<or> n = 160)"

definition trim :: "string \<Rightarrow> string" where
  "trim s = rev (dropWhile is_white_space (rev (dropWhile is_white_space s)))"

text \<open>
  \<^verbatim>\<open>s.toUpperCase()\<close>. The upper-case form of a code unit below 256 can lie outside
  that range or be two code units long, so the result is a list of code units given by
  their numbers: \<open>a\<close> to \<open>z\<close> and the Latin-1 letters 224 to 254 (but not the division
  sign 247) move down by 32, the micro sign 181 becomes the Greek capital mu 924, the
  sharp s 223 becomes \<open>SS\<close>, the y with diaeresis 255 becomes 376, and every other code
  unit stays as it is.
\<close>

type_synonym code_units = "nat list"

definition upper_case_of :: "char \<Rightarrow> code_units" where
  "upper_case_of c =
     (let n = (of_char c :: nat) in
      if 97 \<le> n \<and> n \<le> 122 then [n - 32]
      else if n = 181 then [924]
      else if n = 223 then [83, 83]
      else if 224 \<le> n \<and> n \<le> 254 \<and> n \<noteq> 247 then [n - 32]
      else if n = 255 then [376]
      else [n])"

definition toUpperCase :: "string \<Rightarrow> code_units" where
  "toUpperCase s = concat (map upper_case_of s)"

text \<open>The code units of a string.\<close>

definition code_units_of :: "string \<Rightarrow> code_units" where
  "code_units_of s = map of_char s"

section \<open>The document\<close>

text \<open>
  The list view is the \<^verbatim>\<open>ul\<close> that \<^verbatim>\<open>getRepositoriesContainer\<close> locates. Its items
  have the shape item, heading, link, text span: an \<^verbatim>\<open>li\<close> holds at most one title
  span, which both path expressions of the script
  (\<^verbatim>\<open>.//h4/a/span\<close> and \<^verbatim>\<open>.//div[1]/h4/a/span\<close>) find. An item is a node handle
  (\<open>li_id\<close>) with the \<^verbatim>\<open>textContent\<close> of its span, \<open>None\<close> when the span is not
  there. The children of the container are items and, once the script has run, the
  \<^verbatim>\<open>menu-container\<close> elements it built, whose \<^verbatim>\<open>menu-content\<close> holds items.
\<close>

datatype error = TypeError

record li =
  li_id :: nat
  span_text :: "string option"

datatype display = DisplayNone | DisplayBlock

record menu_container =
  menuTitle :: code_units
  menuContent_display :: display
  menuContent :: "li list"

datatype child = Li li | MenuContainer menu_container

type_synonym container = "child list"

text \<open>The document as the script sees it: the container, or \<open>None\<close> when the locator
  finds nothing.\<close>

type_synonym document = "container option"

definition getRepositoriesContainer :: "document \<Rightarrow> container option" where
  "getRepositoriesContainer doc = (case doc of None \<Rightarrow> None | Some c \<Rightarrow> Some c)"

text \<open>\<^verbatim>\<open>querySelectorAll('li')\<close>: the items below an element, in document order.\<close>

fun querySelectorAll_li :: "container \<Rightarrow> li list" where
  "querySelectorAll_li [] = []"
| "querySelectorAll_li (Li item # rest) = item # querySelectorAll_li rest"
| "querySelectorAll_li (MenuContainer m # rest) = menuContent m @ querySelectorAll_li rest"

text \<open>Reading \<^verbatim>\<open>.textContent\<close> of the result of a node lookup raises on \<^verbatim>\<open>null\<close>.\<close>

definition textContent :: "string option \<Rightarrow> error + string" where
  "textContent n = (case n of None \<Rightarrow> Inl TypeError | Some t \<Rightarrow> Inr t)"

text \<open>Reading \<^verbatim>\<open>.length\<close> of a node list raises on \<^verbatim>\<open>null\<close>.\<close>

definition length_of :: "'a list option \<Rightarrow> error + nat" where
  "length_of xs = (case xs of None \<Rightarrow> Inl TypeError | Some l \<Rightarrow> Inr (length l))"

section \<open>Readiness probe\<close>

text \<open>The loop of \<^verbatim>\<open>is_document_ready\<close> over the items: the first item without a
  span, or with a span whose trimmed text is empty, ends it with \<^verbatim>\<open>false\<close>.\<close>

fun items_ready :: "li list \<Rightarrow> error + bool" where
  "items_ready [] = Inr True"
| "items_ready (item # rest) =
     (let repoTitleNode = span_text item in
      if repoTitleNode = None then Inr False
      else (case textContent repoTitleNode of
              Inl e \<Rightarrow> Inl e
            | Inr t \<Rightarrow> if trim t = [] then Inr False else items_ready rest))"

definition is_document_ready :: "document \<Rightarrow> error + bool" where
  "is_document_ready doc =
     (let repoListContainer = getRepositoriesContainer doc;
          repoItems = (case repoListContainer of
                         None \<Rightarrow> None
                       | Some c \<Rightarrow> Some (querySelectorAll_li c))
      in if repoListContainer = None then Inr False
         else if repoItems = None then Inr False
         else (case length_of repoItems of
                 Inl e \<Rightarrow> Inl e
               | Inr n \<Rightarrow>
                   if n = 0 then Inr False
                   else (case repoItems of
                           None \<Rightarrow> Inl TypeError
                         | Some items \<Rightarrow> items_ready items)))"

section \<open>Extraction\<close>

record repo =
  node :: li
  title :: string

text \<open>\<^verbatim>\<open>getRepositoriesData\<close>: one record for each title span in document order, with
  the enclosing item and the trimmed text; an item without a span gives no record.\<close>

fun repoData_of :: "li list \<Rightarrow> repo list" where
  "repoData_of [] = []"
| "repoData_of (item # rest) =
     (case span_text item of
        None \<Rightarrow> repoData_of rest
      | Some t \<Rightarrow> \<lparr>node = item, title = trim t\<rparr> # repoData_of rest)"

definition getRepositoriesData :: "container \<Rightarrow> repo list" where
  "getRepositoriesData repoListContainer = repoData_of (querySelectorAll_li repoListContainer)"

section \<open>The groups object\<close>

text \<open>
  \<^verbatim>\<open>groupRepositoriesByPrefix\<close> collects the nodes in a plain object created by
  \<^verbatim>\<open>{}\<close>. Its own properties are kept in creation order; reading a property that the
  object does not own continues in \<^verbatim>\<open>Object.prototype\<close>, whose properties are functions
  (with their \<^verbatim>\<open>length\<close>) and the accessor \<^verbatim>\<open>__proto__\<close>, which gives the prototype
  object itself.
\<close>

type_synonym groups = "(string \<times> li list) list"

datatype jsvalue = Undefined | Array "li list" | Function nat | PrototypeObject

definition Object_prototype :: "(string \<times> jsvalue) list" where
  "Object_prototype =
     [(''constructor'', Function 1),
      (''__defineGetter__'', Function 2),
      (''__defineSetter__'', Function 2),
      (''hasOwnProperty'', Function 1),
      (''__lookupGetter__'', Function 1),
      (''__lookupSetter__'', Function 1),
      (''isPrototypeOf'', Function 1),
      (''propertyIsEnumerable'', Function 1),
      (''toString'', Function 0),
      (''valueOf'', Function 0),
      (''toLocaleString'', Function 0),
      (''__proto__'', PrototypeObject)]"

text \<open>\<^verbatim>\<open>groups[key]\<close>.\<close>

definition get_property :: "groups \<Rightarrow> string \<Rightarrow> jsvalue" where
  "get_property g key =
     (case map_of g key of
        Some nodes \<Rightarrow> Array nodes
      | None \<Rightarrow> (case map_of Object_prototype key of
                   Some v \<Rightarrow> v
                 | None \<Rightarrow> Undefined))"

text \<open>\<^verbatim>\<open>!v\<close> is true for \<^verbatim>\<open>undefined\<close> only: arrays, functions and objects are truthy.\<close>

definition falsy :: "jsvalue \<Rightarrow> bool" where
  "falsy v = (v = Undefined)"

text \<open>\<^verbatim>\<open>groups[key] = nodes\<close>: an own property keeps its place, a new one comes last.\<close>

definition set_property :: "groups \<Rightarrow> string \<Rightarrow> li list \<Rightarrow> groups" where
  "set_property g key nodes = AList.update key nodes g"

text \<open>\<^verbatim>\<open>groups[key].push(node)\<close>: only an array has \<^verbatim>\<open>push\<close>; calling the missing
  method of anything else raises.\<close>

definition push_property :: "groups \<Rightarrow> string \<Rightarrow> li \<Rightarrow> error + groups" where
  "push_property g key n =
     (case get_property g key of
        Array nodes \<Rightarrow> Inr (set_property g key (nodes @ [n]))
      | _ \<Rightarrow> Inl TypeError)"

text \<open>\<^verbatim>\<open>groups[key].length < 2\<close>: reading a property of \<^verbatim>\<open>undefined\<close> raises; the
  prototype object has no \<^verbatim>\<open>length\<close>, and \<^verbatim>\<open>undefined < 2\<close> is false.\<close>

definition length_less_2 :: "jsvalue \<Rightarrow> error + bool" where
  "length_less_2 v =
     (case v of
        Undefined \<Rightarrow> Inl TypeError
      | Array nodes \<Rightarrow> Inr (length nodes < 2)
      | Function n \<Rightarrow> Inr (n < 2)
      | PrototypeObject \<Rightarrow> Inr False)"

text \<open>
  \<^verbatim>\<open>Object.entries\<close> lists the own properties whose key is an array index (a canonical
  decimal numeral below \<open>2\<^sup>3\<^sup>2 - 1\<close>) first, in ascending numeric order, and then the
  other keys in creation order.
\<close>

definition is_digit :: "char \<Rightarrow> bool" where
  "is_digit c = (let n = (of_char c :: nat) in 48 \<le> n \<and> n \<le> 57)"

definition digits_value :: "string \<Rightarrow> nat" where
  "digits_value s = foldl (\<lambda>n c. 10 * n + (of_char c - 48)) 0 s"

definition is_array_index :: "string \<Rightarrow> bool" where
  "is_array_index s =
     (s \<noteq> [] \<and> list_all is_digit s \<and> (s = ''0'' \<or> hd s \<noteq> CHR ''0'')
      \<and> digits_value s < 4294967295)"

definition Object_entries :: "groups \<Rightarrow> (string \<times> li list) list" where
  "Object_entries g =
     sort_key (\<lambda>(key, nodes). digits_value key) (filter (\<lambda>(key, nodes). is_array_index key) g)
     @ filter (\<lambda>(key, nodes). \<not> is_array_index key) g"

section \<open>Grouping\<close>

text \<open>The callback of \<^verbatim>\<open>reduce\<close> in \<^verbatim>\<open>groupRepositoriesByPrefix\<close>.\<close>

definition group_step :: "groups \<Rightarrow> repo \<Rightarrow> error + groups" where
  "group_step g r =
     (let prefix = prefix_of (title r);
          g1 = (if falsy (get_property g prefix) then set_property g prefix [] else g)
      in push_property g1 prefix (node r))"

fun reduce_groups :: "groups \<Rightarrow> repo list \<Rightarrow> error + groups" where
  "reduce_groups g [] = Inr g"
| "reduce_groups g (r # rs) =
     (case group_step g r of
        Inl e \<Rightarrow> Inl e
      | Inr g' \<Rightarrow> reduce_groups g' rs)"

definition groupRepositoriesByPrefix :: "repo list \<Rightarrow> error + groups" where
  "groupRepositoriesByPrefix repoData = reduce_groups [] repoData"

section \<open>Rewriting the list\<close>

text \<open>\<^verbatim>\<open>parent.appendChild(n)\<close> for a detached node: it becomes the last child.
  \<^verbatim>\<open>parent.insertBefore(n, parent.firstChild)\<close>: it becomes the first child.\<close>

definition appendChild :: "'a list \<Rightarrow> 'a \<Rightarrow> 'a list" where
  "appendChild parent n = parent @ [n]"

definition insertBefore_firstChild :: "'a list \<Rightarrow> 'a \<Rightarrow> 'a list" where
  "insertBefore_firstChild parent n = n # parent"

text \<open>The prefix removal inside a menu: the span of the item, when it is there, gets
  its trimmed text without the first \<^verbatim>\<open>prefix.length + 1\<close> code units.\<close>

definition remove_prefix :: "string \<Rightarrow> li \<Rightarrow> li" where
  "remove_prefix prefix item =
     (case span_text item of
        None \<Rightarrow> item
      | Some t \<Rightarrow> item\<lparr>span_text := Some (substring (trim t) (length prefix + 1))\<rparr>)"

text \<open>The menu built for one group: upper-cased title, hidden content, the nodes of
  the group moved into the content and their prefixes removed.\<close>

definition build_menu :: "string \<Rightarrow> li list \<Rightarrow> menu_container" where
  "build_menu prefix nodes =
     \<lparr>menuTitle = toUpperCase prefix,
      menuContent_display = DisplayNone,
      menuContent =
        map (remove_prefix prefix)
          (querySelectorAll_li (foldl appendChild [] (map Li nodes)))\<rparr>"

text \<open>The body of the \<^verbatim>\<open>forEach\<close> in \<^verbatim>\<open>createCollapsibleMenu\<close>: a group of fewer than
  two nodes is skipped, any other gets a menu inserted before the first child.\<close>

definition menu_step :: "container \<Rightarrow> string \<times> li list \<Rightarrow> container" where
  "menu_step repoListContainer entry =
     (case entry of (prefix, nodes) \<Rightarrow>
        if length nodes < 2 then repoListContainer
        else insertBefore_firstChild repoListContainer (MenuContainer (build_menu prefix nodes)))"

definition createCollapsibleMenu :: "groups \<Rightarrow> container \<Rightarrow> container" where
  "createCollapsibleMenu repoGroups repoListContainer =
     foldl menu_step repoListContainer (Object_entries repoGroups)"

text \<open>The orphan filter of \<^verbatim>\<open>processRepositories\<close>.\<close>

fun orphanNodes_of :: "groups \<Rightarrow> repo list \<Rightarrow> error + li list" where
  "orphanNodes_of g [] = Inr []"
| "orphanNodes_of g (r # rs) =
     (case length_less_2 (get_property g (prefix_of (title r))) of
        Inl e \<Rightarrow> Inl e
      | Inr keep \<Rightarrow>
          (case orphanNodes_of g rs of
             Inl e \<Rightarrow> Inl e
           | Inr ns \<Rightarrow> Inr (if keep then node r # ns else ns)))"

text \<open>\<^verbatim>\<open>processRepositories\<close> returns the document it leaves behind, or the error it
  raises. Without a container it returns at once. Otherwise the container is emptied,
  the orphans are appended in order and the menus are created.\<close>

definition processRepositories :: "document \<Rightarrow> error + document" where
  "processRepositories doc =
     (case getRepositoriesContainer doc of
        None \<Rightarrow> Inr doc
      | Some repoListContainer \<Rightarrow>
          (let repoData = getRepositoriesData repoListContainer in
           case groupRepositoriesByPrefix repoData of
             Inl e \<Rightarrow> Inl e
           | Inr repoGroups \<Rightarrow>
               (case orphanNodes_of repoGroups repoData of
                  Inl e \<Rightarrow> Inl e
                | Inr orphanNodes \<Rightarrow>
                    Inr (Some (createCollapsibleMenu repoGroups
                                 (foldl appendChild [] (map Li orphanNodes)))))))"

section \<open>Navigation monitor\<close>

record view_state =
  isOnRepositoriesPage :: bool
  hasProcessedRepositories :: bool

definition initial_state :: view_state where
  "initial_state = \<lparr>isOnRepositoriesPage = False, hasProcessedRepositories = False\<rparr>"

text \<open>\<^verbatim>\<open>s.includes(p)\<close>: some suffix of \<open>s\<close> starts with \<open>p\<close>.\<close>

fun starts_with :: "string \<Rightarrow> string \<Rightarrow> bool" where
  "starts_with s [] = True"
| "starts_with [] (c # p) = False"
| "starts_with (d # s) (c # p) = (d = c \<and> starts_with s p)"

fun string_includes :: "string \<Rightarrow> string \<Rightarrow> bool" where
  "string_includes [] p = starts_with [] p"
| "string_includes (d # s) p = (starts_with (d # s) p \<or> string_includes s p)"

text \<open>What one call of \<^verbatim>\<open>checkPage\<close> did with the pipeline: it did not call it, it
  ran it to the end (leaving the document given), or the call raised.\<close>

datatype outcome = NotRun | Processed document | Raised error

text \<open>
  \<^verbatim>\<open>checkPage\<close> at one tick of the timer, given the location and the document of
  that moment. The flags change first; the pipeline is called when the page is the
  repositories page, has not been processed and the probe says ready. The processed
  flag is set after the call returns, so a call that raises leaves it unset.
\<close>

definition checkPage :: "view_state \<Rightarrow> string \<times> document \<Rightarrow> view_state \<times> outcome" where
  "checkPage st sample =
     (case sample of (currentUrl, doc) \<Rightarrow>
        let isRepositoriesPage = string_includes currentUrl ''/repositories'';
            st1 = (if isRepositoriesPage \<and> \<not> isOnRepositoriesPage st
                   then st\<lparr>isOnRepositoriesPage := True, hasProcessedRepositories := False\<rparr>
                   else if \<not> isRepositoriesPage \<and> isOnRepositoriesPage st
                   then st\<lparr>isOnRepositoriesPage := False\<rparr>
                   else st)
        in if isOnRepositoriesPage st1 \<and> \<not> hasProcessedRepositories st1
           then (case is_document_ready doc of
                   Inl e \<Rightarrow> (st1, Raised e)
                 | Inr ready \<Rightarrow>
                     if ready
                     then (case processRepositories doc of
                             Inl e \<Rightarrow> (st1, Raised e)
                           | Inr doc' \<Rightarrow>
                               (st1\<lparr>hasProcessedRepositories := True\<rparr>, Processed doc'))
                     else (st1, NotRun))
           else (st1, NotRun))"

text \<open>\<^verbatim>\<open>setInterval(checkPage, 100)\<close>: one call for each tick, on the state the
  previous call left. The result is the final state with the outcome of each call.\<close>

fun startChecking :: "view_state \<Rightarrow> (string \<times> document) list \<Rightarrow> view_state \<times> outcome list" where
  "startChecking st [] = (st, [])"
| "startChecking st (sample # samples) =
     (case checkPage st sample of (st', out) \<Rightarrow>
        (case startChecking st' samples of (st'', outs) \<Rightarrow> (st'', out # outs)))"

fun is_Processed :: "outcome \<Rightarrow> bool" where
  "is_Processed (Processed d) = True"
| "is_Processed out = False"

text \<open>The number of times the pipeline ran to the end.\<close>

definition runs :: "view_state \<times> outcome list \<Rightarrow> nat" where
  "runs result = length (filter is_Processed (snd result))"

text \<open>The number of arrivals in a sequence of samples: a sample on the repositories
  page that follows a sample off it (or the start, when not on the page).\<close>

fun arrivals :: "bool \<Rightarrow> (string \<times> document) list \<Rightarrow> nat" where
  "arrivals on [] = 0"
| "arrivals on (sample # samples) =
     (let isRepositoriesPage = string_includes (fst sample) ''/repositories''
      in (if isRepositoriesPage \<and> \<not> on then 1 else 0) + arrivals isRepositoriesPage samples)"

section \<open>Notions used in the statements\<close>

text \<open>The nodes of the records with a given key, in the order of the records.\<close>

definition nodes_with_key :: "string \<Rightarrow> repo list \<Rightarrow> li list" where
  "nodes_with_key key rs = map node (filter (\<lambda>r. prefix_of (title r) = key) rs)"

text \<open>What the reducer does to the groups when it does not raise: the node joins the
  group of its key, a new key comes last.\<close>

definition add_node :: "groups \<Rightarrow> string \<Rightarrow> li \<Rightarrow> groups" where
  "add_node g key n =
     (case map_of g key of
        None \<Rightarrow> g @ [(key, [n])]
      | Some nodes \<Rightarrow> AList.update key (nodes @ [n]) g)"

text \<open>The records whose key no other record has.\<close>

definition orphans :: "repo list \<Rightarrow> repo list" where
  "orphans rs = filter (\<lambda>r. length (nodes_with_key (prefix_of (title r)) rs) < 2) rs"

text \<open>The list of the scenario in the specification.\<close>

definition scenario :: container where
  "scenario =
     [Li \<lparr>li_id = 0, span_text = Some ''alpha-one''\<rparr>,
      Li \<lparr>li_id = 1, span_text = Some ''alpha-two''\<rparr>,
      Li \<lparr>li_id = 2, span_text = Some ''beta-solo''\<rparr>,
      Li \<lparr>li_id = 3, span_text = Some ''gamma-x''\<rparr>,
      Li \<lparr>li_id = 4, span_text = Some ''gamma-y''\<rparr>,
      Li \<lparr>li_id = 5, span_text = Some ''gamma-z''\<rparr>]"

text \<open>The groups of the scenario.\<close>

definition scenario_groups :: groups where
  "scenario_groups =
     [(''alpha'', [\<lparr>li_id = 0, span_text = Some ''alpha-one''\<rparr>,
                   \<lparr>li_id = 1, span_text = Some ''alpha-two''\<rparr>]),
      (''beta'', [\<lparr>li_id = 2, span_text = Some ''beta-solo''\<rparr>]),
      (''gamma'', [\<lparr>li_id = 3, span_text = Some ''gamma-x''\<rparr>,
                   \<lparr>li_id = 4, span_text = Some ''gamma-y''\<rparr>,
                   \<lparr>li_id = 5, span_text = Some ''gamma-z''\<rparr>])]"

text \<open>The own keys of the groups object in creation order: each key where it is
  first seen.\<close>

fun keys_seen :: "string list \<Rightarrow> string list \<Rightarrow> string list" where
  "keys_seen seen [] = seen"
| "keys_seen seen (k # ks) = keys_seen (if k \<in> set seen then seen else seen @ [k]) ks"

text \<open>The menus that \<^verbatim>\<open>createCollapsibleMenu\<close> leaves at the start of the container,
  first child first: one for each entry of two or more nodes, the entry visited last
  first.\<close>

definition menus_built :: "groups \<Rightarrow> menu_container list" where
  "menus_built g =
     rev (map (\<lambda>(prefix, nodes). build_menu prefix nodes)
            (filter (\<lambda>(prefix, nodes). 2 \<le> length nodes) (Object_entries g)))"

text \<open>A list with a title that is a bare key, a title with two delimiters and an
  orphan, and what the rewrite makes of it.\<close>

definition example_list :: container where
  "example_list =
     [Li \<lparr>li_id = 0, span_text = Some ''alpha''\<rparr>,
      Li \<lparr>li_id = 1, span_text = Some ''alpha-one-two''\<rparr>,
      Li \<lparr>li_id = 2, span_text = Some ''standalone''\<rparr>]"

definition example_result :: container where
  "example_result =
     [MenuContainer
        \<lparr>menuTitle = code_units_of ''ALPHA'', menuContent_display = DisplayNone,
         menuContent = [\<lparr>li_id = 0, span_text = Some []\<rparr>,
                        \<lparr>li_id = 1, span_text = Some ''one-two''\<rparr>]\<rparr>,
      Li \<lparr>li_id = 2, span_text = Some ''standalone''\<rparr>]"

text \<open>A sample is on the repositories page when its location includes
  \<^verbatim>\<open>/repositories\<close>.\<close>

definition on_repositories_page :: "string \<times> document \<Rightarrow> bool" where
  "on_repositories_page sample = string_includes (fst sample) ''/repositories''"

text \<open>On the document of a sample the probe says ready and the pipeline returns.\<close>

definition pipeline_completes :: "string \<times> document \<Rightarrow> bool" where
  "pipeline_completes sample =
     (is_document_ready (snd sample) = Inr True
      \<and> (case processRepositories (snd sample) of Inl e \<Rightarrow> False | Inr d \<Rightarrow> True))"

text \<open>Two locations, on and off the repositories page, and the state of a processed
  arrival.\<close>

definition repositories_url :: string where
  "repositories_url = ''https://github.com/orgs/acme/repositories''"

definition other_url :: string where
  "other_url = ''https://github.com/orgs/acme/people''"

definition done_state :: view_state where
  "done_state = \<lparr>isOnRepositoriesPage = True, hasProcessedRepositories = True\<rparr>"

text \<open>A list whose only title has a key that names a property of the prototype.\<close>

definition inherited_key_list :: container where
  "inherited_key_list = [Li \<lparr>li_id = 0, span_text = Some ''constructor-x''\<rparr>]"

section \<open>Key derivation\<close>

lemma split_not_Nil: "split sep s \<noteq> []"
  by (induction s) (auto split: list.splits)

lemma first_element_split:
  "first_element (split sep s) = takeWhile (\<lambda>c. c \<noteq> sep) s"
proof (induction s)
  case Nil
  show ?case by (simp add: first_element_def)
next
  case (Cons c cs)
  then show ?case
    using split_not_Nil [of sep cs]
    by (auto simp: first_element_def split: list.splits)
qed

lemma prefix_of_takeWhile: "prefix_of t = takeWhile (\<lambda>c. c \<noteq> CHR ''-'') t"
  by (simp add: prefix_of_def first_element_split)

lemma prefix_of_no_dash: "CHR ''-'' \<notin> set (prefix_of t)"
  using set_takeWhileD [of "CHR ''-''" "\<lambda>c. c \<noteq> CHR ''-''" t]
  by (auto simp: prefix_of_takeWhile)

lemma prefix_of_append_dash:
  "CHR ''-'' \<notin> set a \<Longrightarrow> prefix_of (a @ CHR ''-'' # b) = a"
  by (simp add: prefix_of_takeWhile takeWhile_append)

text \<open>
  C9. For every title, the group key is the text before the first \<open>-\<close>: it holds no
  \<open>-\<close>, a title that is \<open>a\<close>, \<open>-\<close>, \<open>b\<close> with no \<open>-\<close> in \<open>a\<close> has key \<open>a\<close>, and a
  title without \<open>-\<close> is its own key.
\<close>

theorem group_key_is_text_before_first_delimiter:
  "CHR ''-'' \<notin> set (prefix_of t)
   \<and> (\<forall>a b. t = a @ CHR ''-'' # b \<and> CHR ''-'' \<notin> set a \<longrightarrow> prefix_of t = a)
   \<and> (CHR ''-'' \<notin> set t \<longrightarrow> prefix_of t = t)"
proof (intro conjI allI impI)
  show "CHR ''-'' \<notin> set (prefix_of t)"
    by (rule prefix_of_no_dash)
next
  fix a b
  assume "t = a @ CHR ''-'' # b \<and> CHR ''-'' \<notin> set a"
  then show "prefix_of t = a"
    by (simp add: prefix_of_append_dash)
next
  assume "CHR ''-'' \<notin> set t"
  then show "prefix_of t = t"
    by (auto simp: prefix_of_takeWhile)
qed

theorem group_key_is_text_before_first_delimiter_witness:
  "prefix_of ''alpha-one-two'' = ''alpha'' \<and> prefix_of ''standalone'' = ''standalone''"
proof -
  have "''alpha-one-two'' = ''alpha'' @ CHR ''-'' # ''one-two'' \<and> CHR ''-'' \<notin> set ''alpha''"
    by simp
  moreover have "CHR ''-'' \<notin> set ''standalone''"
    by simp
  ultimately show ?thesis
    using group_key_is_text_before_first_delimiter [of "''alpha-one-two''"]
      group_key_is_text_before_first_delimiter [of "''standalone''"]
    by blast
qed

section \<open>Readiness probe\<close>

lemma items_ready_eq:
  "items_ready items = Inr (\<forall>item\<in>set items. \<exists>t. span_text item = Some t \<and> trim t \<noteq> [])"
  by (induction items) (auto simp: textContent_def Let_def)

text \<open>
  C6. The readiness probe never raises, and it returns true exactly when the container
  exists, holds at least one item, and every item has a title span whose trimmed text
  is not empty.
\<close>

theorem is_document_ready_iff:
  "is_document_ready doc =
     Inr (case doc of
            None \<Rightarrow> False
          | Some c \<Rightarrow>
              querySelectorAll_li c \<noteq> []
              \<and> (\<forall>item\<in>set (querySelectorAll_li c).
                    \<exists>t. span_text item = Some t \<and> trim t \<noteq> []))"
  by (cases doc)
     (auto simp: is_document_ready_def getRepositoriesContainer_def length_of_def
        items_ready_eq Let_def)

theorem is_document_ready_iff_witness:
  "is_document_ready (Some scenario) = Inr True
   \<and> is_document_ready None = Inr False
   \<and> is_document_ready (Some []) = Inr False
   \<and> is_document_ready (Some [Li \<lparr>li_id = 0, span_text = None\<rparr>]) = Inr False
   \<and> is_document_ready (Some [Li \<lparr>li_id = 0, span_text = Some '' ''\<rparr>]) = Inr False"
  using is_document_ready_iff [of "Some scenario"] is_document_ready_iff [of None]
    is_document_ready_iff [of "Some []"]
    is_document_ready_iff [of "Some [Li \<lparr>li_id = 0, span_text = None\<rparr>]"]
    is_document_ready_iff [of "Some [Li \<lparr>li_id = 0, span_text = Some '' ''\<rparr>]"]
  by (simp add: scenario_def trim_def is_white_space_def)

section \<open>Grouping\<close>

lemma Object_prototype_values:
  "map_of Object_prototype k = Some v \<Longrightarrow> (\<exists>n. v = Function n) \<or> v = PrototypeObject"
  by (auto simp: Object_prototype_def split: if_splits)

lemma update_fresh: "map_of g k = None \<Longrightarrow> AList.update k v g = g @ [(k, v)]"
  by (induction g) (auto split: if_splits)

text \<open>One step of the reducer raises exactly when the key is not an own property yet
  and names a property of the prototype.\<close>

lemma group_step_eq:
  "group_step g r =
     (if map_of g (prefix_of (title r)) = None
         \<and> map_of Object_prototype (prefix_of (title r)) \<noteq> None
      then Inl TypeError
      else Inr (add_node g (prefix_of (title r)) (node r)))"
  by (auto simp: group_step_def Let_def get_property_def falsy_def set_property_def
      push_property_def add_node_def update_fresh update_conv' dest: Object_prototype_values
      split: option.splits jsvalue.splits)

lemma map_of_add_node:
  "map_of (add_node g k n) k' =
     (if k' = k then Some ((case map_of g k of None \<Rightarrow> [] | Some ns \<Rightarrow> ns) @ [n])
      else map_of g k')"
  by (auto simp: add_node_def update_conv' map_add_def split: option.splits)

lemma keys_add_node:
  "map fst (add_node g k n) = (if map_of g k = None then map fst g @ [k] else map fst g)"
  by (auto simp: add_node_def update_keys map_of_eq_None_iff split: option.splits)

lemma mset_update_append:
  "map_of g k = Some ns \<Longrightarrow>
     mset (concat (map snd (AList.update k (ns @ [n]) g))) = add_mset n (mset (concat (map snd g)))"
  by (induction g) (auto split: if_splits)

lemma mset_add_node:
  "mset (concat (map snd (add_node g k n))) = add_mset n (mset (concat (map snd g)))"
  by (auto simp: add_node_def mset_update_append split: option.splits)

lemma reduce_groups_Inr:
  "reduce_groups g rs = Inr g' \<Longrightarrow>
     g' = foldl (\<lambda>g r. add_node g (prefix_of (title r)) (node r)) g rs"
  by (induction rs arbitrary: g) (auto simp: group_step_eq split: if_splits sum.splits)

lemma map_of_foldl_add_node:
  "map_of (foldl (\<lambda>g r. add_node g (prefix_of (title r)) (node r)) g rs) k =
     (if map_of g k = None \<and> nodes_with_key k rs = [] then None
      else Some ((case map_of g k of None \<Rightarrow> [] | Some ns \<Rightarrow> ns) @ nodes_with_key k rs))"
  by (induction rs arbitrary: g) (auto simp: map_of_add_node nodes_with_key_def split: option.splits)

lemma distinct_keys_foldl_add_node:
  "distinct (map fst g) \<Longrightarrow>
     distinct (map fst (foldl (\<lambda>g r. add_node g (prefix_of (title r)) (node r)) g rs))"
  by (induction rs arbitrary: g) (auto simp: keys_add_node map_of_eq_None_iff)

lemma mset_foldl_add_node:
  "mset (concat (map snd (foldl (\<lambda>g r. add_node g (prefix_of (title r)) (node r)) g rs))) =
     mset (concat (map snd g)) + mset (map node rs)"
  by (induction rs arbitrary: g) (auto simp: mset_add_node)

lemma groupRepositoriesByPrefix_Inr:
  assumes "groupRepositoriesByPrefix R = Inr g"
  shows "map_of g k = (if nodes_with_key k R = [] then None else Some (nodes_with_key k R))"
    and "distinct (map fst g)"
    and "mset (concat (map snd g)) = mset (map node R)"
proof -
  have g: "g = foldl (\<lambda>g r. add_node g (prefix_of (title r)) (node r)) [] R"
    using assms by (simp add: groupRepositoriesByPrefix_def reduce_groups_Inr)
  show "map_of g k = (if nodes_with_key k R = [] then None else Some (nodes_with_key k R))"
    unfolding g by (simp add: map_of_foldl_add_node)
  show "distinct (map fst g)"
    unfolding g by (rule distinct_keys_foldl_add_node) simp
  show "mset (concat (map snd g)) = mset (map node R)"
    unfolding g by (simp add: mset_foldl_add_node)
qed

lemma nodes_with_key_Nil_iff:
  "nodes_with_key k R = [] \<longleftrightarrow> (\<forall>r\<in>set R. prefix_of (title r) \<noteq> k)"
  by (auto simp: nodes_with_key_def filter_empty_conv)

lemma entry_of_groups:
  assumes "groupRepositoriesByPrefix R = Inr g"
  shows "(k, ns) \<in> set g \<longleftrightarrow> ns = nodes_with_key k R \<and> ns \<noteq> []"
proof -
  have "(k, ns) \<in> set g \<longleftrightarrow> map_of g k = Some ns"
    using groupRepositoriesByPrefix_Inr(2) [OF assms] by simp
  then show ?thesis
    by (auto simp: groupRepositoriesByPrefix_Inr(1) [OF assms])
qed

text \<open>The grouping returns exactly when no key names a property of the prototype.\<close>

lemma reduce_groups_returns:
  "(\<exists>g'. reduce_groups g rs = Inr g') \<longleftrightarrow>
     (\<forall>r\<in>set rs. map_of g (prefix_of (title r)) \<noteq> None
                     \<or> map_of Object_prototype (prefix_of (title r)) = None)"
proof (induction rs arbitrary: g)
  case Nil
  show ?case by simp
next
  case (Cons r rs)
  show ?case
  proof (cases "map_of g (prefix_of (title r)) = None
                \<and> map_of Object_prototype (prefix_of (title r)) \<noteq> None")
    case True
    then show ?thesis by (auto simp: group_step_eq)
  next
    case False
    then have step: "group_step g r = Inr (add_node g (prefix_of (title r)) (node r))"
      by (simp add: group_step_eq)
    have "map_of (add_node g (prefix_of (title r)) (node r)) k \<noteq> None
            \<or> map_of Object_prototype k = None
          \<longleftrightarrow> map_of g k \<noteq> None \<or> map_of Object_prototype k = None" for k
      using False by (auto simp: map_of_add_node)
    then show ?thesis
      using False by (simp add: step Cons.IH)
  qed
qed

lemma groupRepositoriesByPrefix_returns:
  "(\<exists>g. groupRepositoriesByPrefix R = Inr g) \<longleftrightarrow>
     (\<forall>r\<in>set R. map_of Object_prototype (prefix_of (title r)) = None)"
  by (simp add: groupRepositoriesByPrefix_def reduce_groups_returns)

lemma scenario_grouping:
  "groupRepositoriesByPrefix (getRepositoriesData scenario) = Inr scenario_groups"
  by code_simp

lemma scenario_nodes_distinct: "distinct (map node (getRepositoriesData scenario))"
  by code_simp

text \<open>
  C4. Whenever the grouping returns groups for the records \<open>R\<close>, they partition \<open>R\<close>:
  the keys are pairwise different, the nodes of all groups together are the nodes of
  \<open>R\<close> with the same multiplicities (none lost, none duplicated), and, the nodes of \<open>R\<close>
  being pairwise different, the node of a record is in the group of its key and in no
  other.
\<close>

theorem grouping_is_partition:
  assumes "groupRepositoriesByPrefix R = Inr g"
  shows "distinct (map fst g)
     \<and> mset (concat (map snd g)) = mset (map node R)
     \<and> (distinct (map node R) \<longrightarrow>
          (\<forall>r\<in>set R. \<forall>(k, ns)\<in>set g. node r \<in> set ns \<longleftrightarrow> k = prefix_of (title r)))"
proof (intro conjI impI ballI)
  show "distinct (map fst g)"
    by (rule groupRepositoriesByPrefix_Inr(2) [OF assms])
  show "mset (concat (map snd g)) = mset (map node R)"
    by (rule groupRepositoriesByPrefix_Inr(3) [OF assms])
next
  fix r e
  assume d: "distinct (map node R)" and r: "r \<in> set R" and e: "e \<in> set g"
  obtain k ns where kns: "e = (k, ns)" by (cases e)
  have ns: "ns = nodes_with_key k R"
    using e kns entry_of_groups [OF assms] by simp
  have inj: "inj_on node (set R)"
    using d by (simp add: distinct_map)
  have "node r \<in> set ns \<longleftrightarrow> k = prefix_of (title r)"
  proof
    assume "node r \<in> set ns"
    then obtain r' where "r' \<in> set R" "prefix_of (title r') = k" "node r' = node r"
      by (auto simp: ns nodes_with_key_def)
    with inj r show "k = prefix_of (title r)"
      by (auto dest: inj_onD)
  next
    assume "k = prefix_of (title r)"
    with r show "node r \<in> set ns"
      by (auto simp: ns nodes_with_key_def)
  qed
  then show "case e of (k, ns) \<Rightarrow> node r \<in> set ns \<longleftrightarrow> k = prefix_of (title r)"
    by (simp add: kns)
qed

theorem grouping_is_partition_witness:
  "groupRepositoriesByPrefix (getRepositoriesData scenario) = Inr scenario_groups
   \<and> distinct (map node (getRepositoriesData scenario))
   \<and> distinct (map fst scenario_groups)
   \<and> mset (concat (map snd scenario_groups)) = mset (map node (getRepositoriesData scenario))
   \<and> list_all (\<lambda>r. list_all (\<lambda>(k, ns). node r \<in> set ns \<longleftrightarrow> k = prefix_of (title r))
          scenario_groups) (getRepositoriesData scenario)"
  using grouping_is_partition [OF scenario_grouping] scenario_grouping scenario_nodes_distinct
  unfolding list_all_iff by blast

text \<open>
  C7. Whenever the grouping returns groups for the records \<open>R\<close>, the members of each
  group are the nodes of the records of \<open>R\<close> with that key, in the order of \<open>R\<close>; the
  mapping from keys to groups is this function of \<open>R\<close>, so grouping the same \<open>R\<close> again
  gives the same groups.
\<close>

theorem grouping_is_stable:
  assumes "groupRepositoriesByPrefix R = Inr g"
  shows "(\<forall>(k, ns)\<in>set g. ns = map node (filter (\<lambda>r. prefix_of (title r) = k) R))
     \<and> map_of g =
         (\<lambda>k. if \<exists>r\<in>set R. prefix_of (title r) = k
              then Some (map node (filter (\<lambda>r. prefix_of (title r) = k) R))
              else None)
     \<and> (\<forall>g'. groupRepositoriesByPrefix R = Inr g' \<longrightarrow> g' = g)"
proof (intro conjI)
  show "\<forall>(k, ns)\<in>set g. ns = map node (filter (\<lambda>r. prefix_of (title r) = k) R)"
    using entry_of_groups [OF assms] by (auto simp: nodes_with_key_def)
  show "map_of g =
         (\<lambda>k. if \<exists>r\<in>set R. prefix_of (title r) = k
              then Some (map node (filter (\<lambda>r. prefix_of (title r) = k) R))
              else None)"
    using nodes_with_key_Nil_iff
    by (auto simp: fun_eq_iff groupRepositoriesByPrefix_Inr(1) [OF assms] nodes_with_key_def)
  show "\<forall>g'. groupRepositoriesByPrefix R = Inr g' \<longrightarrow> g' = g"
    using assms by simp
qed

theorem grouping_is_stable_witness:
  "groupRepositoriesByPrefix (getRepositoriesData scenario) = Inr scenario_groups
   \<and> list_all (\<lambda>(k, ns).
         ns = map node (filter (\<lambda>r. prefix_of (title r) = k) (getRepositoriesData scenario)))
       scenario_groups
   \<and> map_of scenario_groups ''gamma'' =
        Some (map node (filter (\<lambda>r. prefix_of (title r) = ''gamma'') (getRepositoriesData scenario)))"
proof -
  have "\<exists>r\<in>set (getRepositoriesData scenario). prefix_of (title r) = ''gamma''"
    by code_simp
  then show ?thesis
    using grouping_is_stable [OF scenario_grouping] scenario_grouping
    unfolding list_all_iff by simp
qed

section \<open>Rewriting the list\<close>

lemma keys_foldl_add_node:
  "map fst (foldl (\<lambda>g r. add_node g (prefix_of (title r)) (node r)) g rs) =
     keys_seen (map fst g) (map (\<lambda>r. prefix_of (title r)) rs)"
  by (induction rs arbitrary: g) (auto simp: keys_add_node map_of_eq_None_iff)

lemma keys_of_groups:
  "groupRepositoriesByPrefix R = Inr g \<Longrightarrow>
     map fst g = keys_seen [] (map (\<lambda>r. prefix_of (title r)) R)"
  using reduce_groups_Inr [of "[]" R g] keys_foldl_add_node [of "[]" R]
  by (simp add: groupRepositoriesByPrefix_def)

lemma set_Object_entries: "set (Object_entries g) = set g"
  by (auto simp: Object_entries_def)

lemma Object_entries_no_index:
  "\<forall>(k, ns)\<in>set g. \<not> is_array_index k \<Longrightarrow> Object_entries g = g"
  by (simp add: Object_entries_def filter_empty_conv case_prod_beta)

lemma orphanNodes_of_eq:
  assumes "\<forall>r\<in>set rs. \<exists>ns. map_of g (prefix_of (title r)) = Some ns"
  shows "orphanNodes_of g rs =
     Inr (map node (filter (\<lambda>r. length (the (map_of g (prefix_of (title r)))) < 2) rs))"
  using assms
  by (induction rs) (auto simp: length_less_2_def get_property_def)

lemma orphanNodes_of_groups:
  assumes "groupRepositoriesByPrefix R = Inr g"
  shows "orphanNodes_of g R = Inr (map node (orphans R))"
proof -
  have own: "map_of g (prefix_of (title r)) = Some (nodes_with_key (prefix_of (title r)) R)"
    if "r \<in> set R" for r
    using that by (auto simp: groupRepositoriesByPrefix_Inr(1) [OF assms] nodes_with_key_Nil_iff)
  then have "orphanNodes_of g R =
     Inr (map node (filter (\<lambda>r. length (the (map_of g (prefix_of (title r)))) < 2) R))"
    by (intro orphanNodes_of_eq) auto
  also have "filter (\<lambda>r. length (the (map_of g (prefix_of (title r)))) < 2) R = orphans R"
    unfolding orphans_def by (rule filter_cong) (auto simp: own)
  finally show ?thesis .
qed

lemma foldl_appendChild: "foldl appendChild parent ns = parent @ ns"
  by (induction ns arbitrary: parent) (auto simp: appendChild_def)

lemma foldl_menu_step:
  "foldl menu_step c entries =
     map MenuContainer (rev (map (\<lambda>(prefix, nodes). build_menu prefix nodes)
       (filter (\<lambda>(prefix, nodes). 2 \<le> length nodes) entries))) @ c"
  by (induction entries arbitrary: c) (auto simp: menu_step_def insertBefore_firstChild_def)

lemma querySelectorAll_li_map_Li: "querySelectorAll_li (map Li nodes) = nodes"
  by (induction nodes) auto

lemma querySelectorAll_li_append:
  "querySelectorAll_li (c @ d) = querySelectorAll_li c @ querySelectorAll_li d"
  by (induction c rule: querySelectorAll_li.induct) auto

lemma querySelectorAll_li_map_MenuContainer:
  "querySelectorAll_li (map MenuContainer ms) = concat (map menuContent ms)"
  by (induction ms) auto

lemma processRepositories_Some:
  assumes "processRepositories (Some c) = Inr doc'"
  shows "\<exists>g. groupRepositoriesByPrefix (getRepositoriesData c) = Inr g
     \<and> doc' = Some (map MenuContainer (menus_built g)
                     @ map Li (map node (orphans (getRepositoriesData c))))"
proof (cases "groupRepositoriesByPrefix (getRepositoriesData c)")
  case (Inl e)
  with assms show ?thesis
    by (simp add: processRepositories_def getRepositoriesContainer_def)
next
  case (Inr g)
  with assms show ?thesis
    by (auto simp: processRepositories_def getRepositoriesContainer_def createCollapsibleMenu_def
        orphanNodes_of_groups foldl_menu_step foldl_appendChild menus_built_def)
qed

lemma processRepositories_returns:
  "(\<exists>doc'. processRepositories doc = Inr doc') \<longleftrightarrow>
     (\<forall>c. doc = Some c \<longrightarrow>
        (\<forall>r\<in>set (getRepositoriesData c). map_of Object_prototype (prefix_of (title r)) = None))"
proof (cases doc)
  case None
  then show ?thesis
    by (simp add: processRepositories_def getRepositoriesContainer_def)
next
  case (Some c)
  show ?thesis
  proof (cases "groupRepositoriesByPrefix (getRepositoriesData c)")
    case (Inl e)
    then show ?thesis
      using groupRepositoriesByPrefix_returns [of "getRepositoriesData c"]
      by (simp add: Some processRepositories_def getRepositoriesContainer_def)
  next
    case (Inr g)
    then show ?thesis
      using groupRepositoriesByPrefix_returns [of "getRepositoriesData c"]
      by (simp add: Some processRepositories_def getRepositoriesContainer_def
          orphanNodes_of_groups)
  qed
qed

lemma record_of_item:
  "r \<in> set (repoData_of items) \<Longrightarrow> \<exists>t. span_text (node r) = Some t \<and> title r = trim t"
  by (induction items) (auto split: option.splits)

lemma remove_prefix_record:
  assumes "r \<in> set (getRepositoriesData c)"
  shows "remove_prefix k (node r) = (node r)\<lparr>span_text := Some (drop (length k + 1) (title r))\<rparr>"
  using record_of_item [of r "querySelectorAll_li c"] assms
  by (auto simp: getRepositoriesData_def remove_prefix_def substring_def)

lemma menu_of_group:
  assumes "groupRepositoriesByPrefix R = Inr g" and "2 \<le> length (nodes_with_key K R)"
  shows "build_menu K (nodes_with_key K R) \<in> set (menus_built g)"
proof -
  have "(K, nodes_with_key K R) \<in> set g"
    using assms by (auto simp: entry_of_groups [OF assms(1)])
  then have "(K, nodes_with_key K R) \<in> set (Object_entries g)"
    by (simp add: set_Object_entries)
  with assms(2) show ?thesis
    by (force simp: menus_built_def)
qed

lemma menus_built_cases:
  assumes "groupRepositoriesByPrefix R = Inr g" and "m \<in> set (menus_built g)"
  shows "\<exists>K. m = build_menu K (nodes_with_key K R) \<and> 2 \<le> length (nodes_with_key K R)"
proof -
  from assms(2) obtain K ns where "(K, ns) \<in> set (Object_entries g)" "2 \<le> length ns"
    "m = build_menu K ns"
    by (auto simp: menus_built_def)
  then show ?thesis
    using entry_of_groups [OF assms(1)] by (auto simp: set_Object_entries)
qed

lemma menuContent_build_menu:
  "menuContent (build_menu K ns) = map (remove_prefix K) ns"
  by (simp add: build_menu_def foldl_appendChild querySelectorAll_li_map_Li)

lemma li_id_remove_prefix: "li_id (remove_prefix K n) = li_id n"
  by (simp add: remove_prefix_def split: option.splits)

lemma items_of_result:
  "querySelectorAll_li (map MenuContainer ms @ map Li os) = concat (map menuContent ms) @ os"
  by (simp add: querySelectorAll_li_append querySelectorAll_li_map_Li
      querySelectorAll_li_map_MenuContainer)

lemma result_items:
  assumes g: "groupRepositoriesByPrefix R = Inr g"
    and item: "item \<in> set (querySelectorAll_li (map MenuContainer (menus_built g)
                  @ map Li (map node (orphans R))))"
  shows "\<exists>r\<in>set R. li_id item = li_id (node r)
     \<and> item = (if 2 \<le> length (nodes_with_key (prefix_of (title r)) R)
               then remove_prefix (prefix_of (title r)) (node r) else node r)"
proof -
  from item consider
      (menu) m where "m \<in> set (menus_built g)" "item \<in> set (menuContent m)"
    | (orphan) "item \<in> set (map node (orphans R))"
    unfolding items_of_result by auto
  then show ?thesis
  proof cases
    case menu
    then obtain K where K: "m = build_menu K (nodes_with_key K R)"
        "2 \<le> length (nodes_with_key K R)"
      using menus_built_cases [OF g] by blast
    with menu(2) obtain r where "r \<in> set R" "prefix_of (title r) = K"
        "item = remove_prefix K (node r)"
      by (auto simp: menuContent_build_menu nodes_with_key_def)
    with K(2) show ?thesis
      by (auto simp: li_id_remove_prefix)
  next
    case orphan
    then obtain r where "r \<in> set R" "item = node r"
        "length (nodes_with_key (prefix_of (title r)) R) < 2"
      by (auto simp: orphans_def)
    then show ?thesis by auto
  qed
qed

lemma result_item_of_record:
  assumes g: "groupRepositoriesByPrefix R = Inr g"
    and d: "distinct (map (\<lambda>r. li_id (node r)) R)"
    and r: "r \<in> set R"
    and item: "item \<in> set (querySelectorAll_li (map MenuContainer (menus_built g)
                  @ map Li (map node (orphans R))))"
    and same: "li_id item = li_id (node r)"
  shows "item = (if 2 \<le> length (nodes_with_key (prefix_of (title r)) R)
               then remove_prefix (prefix_of (title r)) (node r) else node r)"
proof -
  from result_items [OF g item] obtain r' where r': "r' \<in> set R"
      "li_id item = li_id (node r')"
      "item = (if 2 \<le> length (nodes_with_key (prefix_of (title r')) R)
               then remove_prefix (prefix_of (title r')) (node r') else node r')"
    by blast
  have "inj_on (\<lambda>r. li_id (node r)) (set R)"
    using d by (simp add: distinct_map)
  with r r'(1,2) same have "r' = r"
    by (auto dest: inj_onD)
  with r'(3) show ?thesis by simp
qed

lemma member_displayed_title:
  assumes run: "processRepositories (Some c) = Inr doc'"
    and r: "r \<in> set (getRepositoriesData c)"
    and key: "prefix_of (title r) = K"
    and multi: "2 \<le> length (nodes_with_key K (getRepositoriesData c))"
  shows "\<exists>c'. doc' = Some c'
     \<and> (\<exists>m. MenuContainer m \<in> set c' \<and> menuTitle m = toUpperCase K
             \<and> (node r)\<lparr>span_text := Some (drop (length K + 1) (title r))\<rparr>
                  \<in> set (menuContent m))
     \<and> (distinct (map (\<lambda>r. li_id (node r)) (getRepositoriesData c)) \<longrightarrow>
          (\<forall>item\<in>set (querySelectorAll_li c').
             li_id item = li_id (node r) \<longrightarrow>
             span_text item = Some (drop (length K + 1) (title r))))"
proof -
  let ?R = "getRepositoriesData c"
  let ?shown = "(node r)\<lparr>span_text := Some (drop (length K + 1) (title r))\<rparr>"
  from processRepositories_Some [OF run] obtain g where
      g: "groupRepositoriesByPrefix ?R = Inr g" and
      doc': "doc' = Some (map MenuContainer (menus_built g) @ map Li (map node (orphans ?R)))"
    by blast
  have shown: "remove_prefix K (node r) = ?shown"
    by (rule remove_prefix_record [OF r])
  have "node r \<in> set (nodes_with_key K ?R)"
    using r key by (auto simp: nodes_with_key_def)
  then have "?shown \<in> set (menuContent (build_menu K (nodes_with_key K ?R)))"
    using shown by (force simp: menuContent_build_menu)
  moreover have "menuTitle (build_menu K (nodes_with_key K ?R)) = toUpperCase K"
    by (simp add: build_menu_def)
  ultimately have menu: "\<exists>m. MenuContainer m \<in> set (map MenuContainer (menus_built g)
        @ map Li (map node (orphans ?R))) \<and> menuTitle m = toUpperCase K
        \<and> ?shown \<in> set (menuContent m)"
    using menu_of_group [OF g multi] by auto
  have "span_text item = Some (drop (length K + 1) (title r))"
    if "distinct (map (\<lambda>r. li_id (node r)) ?R)"
      and "item \<in> set (querySelectorAll_li (map MenuContainer (menus_built g)
                  @ map Li (map node (orphans ?R))))"
      and "li_id item = li_id (node r)" for item
    using result_item_of_record [OF g that(1) r that(2,3)] multi key shown by simp
  with menu show ?thesis
    unfolding doc' by blast
qed

lemma example_run: "processRepositories (Some example_list) = Inr (Some example_result)"
  by code_simp

lemma example_ids_distinct:
  "distinct (map (\<lambda>r. li_id (node r)) (getRepositoriesData example_list))"
  by code_simp

lemma example_alpha_multi:
  "2 \<le> length (nodes_with_key ''alpha'' (getRepositoriesData example_list))"
  by code_simp

text \<open>
  C5. After the rewrite, a member of a group of two or more records with key \<open>K\<close>
  whose title is \<open>K\<close>, \<open>-\<close>, \<open>suffix\<close> sits in the menu of \<open>K\<close> with the text of its span
  equal to \<open>suffix\<close>, whatever further \<open>-\<close> the suffix holds; the node handles being
  pairwise different, every item with its handle shows \<open>suffix\<close>.
\<close>

theorem prefix_removed_from_member_title:
  assumes run: "processRepositories (Some c) = Inr doc'"
    and r: "r \<in> set (getRepositoriesData c)"
    and t: "title r = K @ CHR ''-'' # suffix" and K: "CHR ''-'' \<notin> set K"
    and multi: "2 \<le> length (nodes_with_key K (getRepositoriesData c))"
  shows "\<exists>c'. doc' = Some c'
     \<and> (\<exists>m. MenuContainer m \<in> set c' \<and> menuTitle m = toUpperCase K
             \<and> (node r)\<lparr>span_text := Some suffix\<rparr> \<in> set (menuContent m))
     \<and> (distinct (map (\<lambda>r. li_id (node r)) (getRepositoriesData c)) \<longrightarrow>
          (\<forall>item\<in>set (querySelectorAll_li c').
             li_id item = li_id (node r) \<longrightarrow> span_text item = Some suffix))"
proof -
  have "prefix_of (title r) = K"
    using t K by (simp add: prefix_of_append_dash)
  moreover have "drop (length K + 1) (title r) = suffix"
    using t by simp
  ultimately show ?thesis
    using member_displayed_title [OF run r _ multi] by simp
qed

theorem prefix_removed_from_member_title_witness:
  "processRepositories (Some example_list) = Inr (Some example_result)
   \<and> list_all (\<lambda>item. li_id item = 1 \<longrightarrow> span_text item = Some ''one-two'')
         (querySelectorAll_li example_result)"
proof -
  let ?r = "\<lparr>node = \<lparr>li_id = 1, span_text = Some ''alpha-one-two''\<rparr>, title = ''alpha-one-two''\<rparr>"
  have r: "?r \<in> set (getRepositoriesData example_list)"
    by code_simp
  have t: "title ?r = ''alpha'' @ CHR ''-'' # ''one-two''"
    by simp
  have K: "CHR ''-'' \<notin> set ''alpha''"
    by simp
  show ?thesis
    using prefix_removed_from_member_title [OF example_run r t K example_alpha_multi]
      example_ids_distinct example_run
    unfolding list_all_iff by simp
qed

text \<open>
  C10. After the rewrite, a member of a group of two or more records with key \<open>K\<close>
  whose whole trimmed title is \<open>K\<close> sits in the menu of \<open>K\<close> with the empty string as
  the text of its span.
\<close>

theorem bare_key_title_becomes_empty:
  assumes run: "processRepositories (Some c) = Inr doc'"
    and r: "r \<in> set (getRepositoriesData c)"
    and t: "title r = K" and K: "CHR ''-'' \<notin> set K"
    and multi: "2 \<le> length (nodes_with_key K (getRepositoriesData c))"
  shows "\<exists>c'. doc' = Some c'
     \<and> (\<exists>m. MenuContainer m \<in> set c' \<and> menuTitle m = toUpperCase K
             \<and> (node r)\<lparr>span_text := Some []\<rparr> \<in> set (menuContent m))
     \<and> (distinct (map (\<lambda>r. li_id (node r)) (getRepositoriesData c)) \<longrightarrow>
          (\<forall>item\<in>set (querySelectorAll_li c').
             li_id item = li_id (node r) \<longrightarrow> span_text item = Some []))"
proof -
  have "prefix_of (title r) = K"
    using t K by (auto simp: prefix_of_takeWhile)
  moreover have "drop (length K + 1) (title r) = []"
    using t by simp
  ultimately show ?thesis
    using member_displayed_title [OF run r _ multi] by simp
qed

theorem bare_key_title_becomes_empty_witness:
  "processRepositories (Some example_list) = Inr (Some example_result)
   \<and> list_all (\<lambda>item. li_id item = 0 \<longrightarrow> span_text item = Some [])
         (querySelectorAll_li example_result)"
proof -
  let ?r = "\<lparr>node = \<lparr>li_id = 0, span_text = Some ''alpha''\<rparr>, title = ''alpha''\<rparr>"
  have r: "?r \<in> set (getRepositoriesData example_list)"
    by code_simp
  have t: "title ?r = ''alpha''"
    by simp
  have K: "CHR ''-'' \<notin> set ''alpha''"
    by simp
  show ?thesis
    using bare_key_title_becomes_empty [OF example_run r t K example_alpha_multi]
      example_ids_distinct example_run
    unfolding list_all_iff by simp
qed

text \<open>
  C8. After the rewrite, the standalone items of the container are the nodes of the
  records whose key no other record has, in extraction order and as they were
  extracted; such a node is in no menu (the node handles being pairwise different), and
  every item with its handle is the unchanged node.
\<close>

theorem orphans_kept_unchanged_in_order:
  assumes run: "processRepositories (Some c) = Inr doc'"
  shows "\<exists>ms c'. doc' = Some c'
     \<and> c' = map MenuContainer ms @ map Li (map node (orphans (getRepositoriesData c)))
     \<and> (\<forall>r\<in>set (getRepositoriesData c).
           length (nodes_with_key (prefix_of (title r)) (getRepositoriesData c)) = 1 \<longrightarrow>
             r \<in> set (orphans (getRepositoriesData c))
             \<and> Li (node r) \<in> set c'
             \<and> (distinct (map (\<lambda>r. li_id (node r)) (getRepositoriesData c)) \<longrightarrow>
                  (\<forall>m\<in>set ms. \<forall>item\<in>set (menuContent m). li_id item \<noteq> li_id (node r))
                  \<and> (\<forall>item\<in>set (querySelectorAll_li c').
                        li_id item = li_id (node r) \<longrightarrow> item = node r)))"
proof -
  let ?R = "getRepositoriesData c"
  let ?c' = "map MenuContainer (menus_built g) @ map Li (map node (orphans ?R))"
  from processRepositories_Some [OF run] obtain g where
      g: "groupRepositoriesByPrefix ?R = Inr g" and
      doc': "doc' = Some (map MenuContainer (menus_built g) @ map Li (map node (orphans ?R)))"
    by blast
  have "r \<in> set (orphans ?R)
      \<and> Li (node r) \<in> set (map MenuContainer (menus_built g) @ map Li (map node (orphans ?R)))
      \<and> (distinct (map (\<lambda>r. li_id (node r)) ?R) \<longrightarrow>
            (\<forall>m\<in>set (menus_built g). \<forall>item\<in>set (menuContent m). li_id item \<noteq> li_id (node r))
            \<and> (\<forall>item\<in>set (querySelectorAll_li
                  (map MenuContainer (menus_built g) @ map Li (map node (orphans ?R)))).
                  li_id item = li_id (node r) \<longrightarrow> item = node r))"
    if r: "r \<in> set ?R" and one: "length (nodes_with_key (prefix_of (title r)) ?R) = 1" for r
  proof (intro conjI impI ballI)
    show orphan: "r \<in> set (orphans ?R)"
      using r one by (simp add: orphans_def)
    then show "Li (node r) \<in> set (map MenuContainer (menus_built g)
        @ map Li (map node (orphans ?R)))"
      by auto
  next
    fix item
    assume d: "distinct (map (\<lambda>r. li_id (node r)) ?R)"
      and item: "item \<in> set (querySelectorAll_li
          (map MenuContainer (menus_built g) @ map Li (map node (orphans ?R))))"
      and same: "li_id item = li_id (node r)"
    show "item = node r"
      using result_item_of_record [OF g d r item same] one by simp
  next
    fix m item
    assume d: "distinct (map (\<lambda>r. li_id (node r)) ?R)"
      and m: "m \<in> set (menus_built g)" and item: "item \<in> set (menuContent m)"
    show "li_id item \<noteq> li_id (node r)"
    proof
      assume same: "li_id item = li_id (node r)"
      from m obtain K where K: "m = build_menu K (nodes_with_key K ?R)"
          "2 \<le> length (nodes_with_key K ?R)"
        using menus_built_cases [OF g] by blast
      with item obtain r' where r': "r' \<in> set ?R" "prefix_of (title r') = K"
          "item = remove_prefix K (node r')"
        by (auto simp: menuContent_build_menu nodes_with_key_def)
      have "inj_on (\<lambda>r. li_id (node r)) (set ?R)"
        using d by (simp add: distinct_map)
      with r r'(1,3) same have "r' = r"
        by (auto simp: li_id_remove_prefix dest: inj_onD)
      with r'(2) K(2) one show False by simp
    qed
  qed
  then show ?thesis
    unfolding doc' by blast
qed

theorem orphans_kept_unchanged_in_order_witness:
  "processRepositories (Some example_list) = Inr (Some example_result)
   \<and> orphans (getRepositoriesData example_list) =
       [\<lparr>node = \<lparr>li_id = 2, span_text = Some ''standalone''\<rparr>, title = ''standalone''\<rparr>]
   \<and> list_all (\<lambda>item. li_id item = 2 \<longrightarrow> item = \<lparr>li_id = 2, span_text = Some ''standalone''\<rparr>)
         (querySelectorAll_li example_result)"
proof -
  let ?r = "\<lparr>node = \<lparr>li_id = 2, span_text = Some ''standalone''\<rparr>, title = ''standalone''\<rparr>"
  have r: "?r \<in> set (getRepositoriesData example_list)"
    by code_simp
  have one: "length (nodes_with_key (prefix_of (title ?r)) (getRepositoriesData example_list)) = 1"
    by code_simp
  have o: "orphans (getRepositoriesData example_list) = [?r]"
    by code_simp
  show ?thesis
    using orphans_kept_unchanged_in_order [OF example_run] r one o
      example_ids_distinct example_run
    unfolding list_all_iff by auto
qed

text \<open>
  C1, as amended. After the rewrite the container holds the menus first and the
  standalone orphan items after them; the menus are one for each group of two or more
  nodes, in the reverse of the order in which \<^verbatim>\<open>Object.entries\<close> lists the groups. The
  own keys are created in first-seen order, and \<^verbatim>\<open>Object.entries\<close> lists them in that
  order when none is an array index.
\<close>

theorem menus_first_in_reverse_entries_order:
  assumes run: "processRepositories (Some c) = Inr doc'"
  shows "\<exists>g ms. groupRepositoriesByPrefix (getRepositoriesData c) = Inr g
     \<and> doc' = Some (map MenuContainer ms @ map Li (map node (orphans (getRepositoriesData c))))
     \<and> rev ms = map (\<lambda>(prefix, nodes). build_menu prefix nodes)
                  (filter (\<lambda>(prefix, nodes). 2 \<le> length nodes) (Object_entries g))
     \<and> map fst g = keys_seen [] (map (\<lambda>r. prefix_of (title r)) (getRepositoriesData c))
     \<and> ((\<forall>(k, ns)\<in>set g. \<not> is_array_index k) \<longrightarrow> Object_entries g = g)"
proof -
  from processRepositories_Some [OF run] obtain g where
      g: "groupRepositoriesByPrefix (getRepositoriesData c) = Inr g" and
      doc': "doc' = Some (map MenuContainer (menus_built g)
                @ map Li (map node (orphans (getRepositoriesData c))))"
    by blast
  have "rev (menus_built g) = map (\<lambda>(prefix, nodes). build_menu prefix nodes)
                  (filter (\<lambda>(prefix, nodes). 2 \<le> length nodes) (Object_entries g))"
    by (simp add: menus_built_def)
  with g doc' keys_of_groups [OF g] Object_entries_no_index [of g] show ?thesis
    by blast
qed

theorem menus_first_in_reverse_entries_order_witness:
  "groupRepositoriesByPrefix (getRepositoriesData scenario) = Inr scenario_groups
   \<and> list_all (\<lambda>(k, ns). \<not> is_array_index k) scenario_groups
   \<and> Object_entries scenario_groups = scenario_groups
   \<and> (\<exists>ms. processRepositories (Some scenario) =
          Inr (Some (map MenuContainer ms @ map Li (map node (orphans (getRepositoriesData scenario)))))
        \<and> rev ms = map (\<lambda>(prefix, nodes). build_menu prefix nodes)
                  (filter (\<lambda>(prefix, nodes). 2 \<le> length nodes) scenario_groups))"
proof -
  obtain doc' where run: "processRepositories (Some scenario) = Inr doc'"
    using processRepositories_returns [of "Some scenario"]
    by (auto simp: scenario_def getRepositoriesData_def prefix_of_takeWhile trim_def
        is_white_space_def Object_prototype_def)
  have noidx: "\<forall>(k, ns)\<in>set scenario_groups. \<not> is_array_index k"
    by (simp add: scenario_groups_def is_array_index_def is_digit_def)
  show ?thesis
    using menus_first_in_reverse_entries_order [OF run] run noidx scenario_grouping
    unfolding list_all_iff by auto
qed

text \<open>
  C1 as stated fails on the scenario: the groups are listed \<open>alpha\<close>, \<open>beta\<close>, \<open>gamma\<close>,
  and the menus stand in the container as \<open>GAMMA\<close>, \<open>ALPHA\<close>.
\<close>

theorem menus_in_iteration_order_counterexample:
  "map fst (Object_entries scenario_groups) = [''alpha'', ''beta'', ''gamma'']
   \<and> groupRepositoriesByPrefix (getRepositoriesData scenario) = Inr scenario_groups
   \<and> processRepositories (Some scenario) =
       Inr (Some
         [MenuContainer
            \<lparr>menuTitle = code_units_of ''GAMMA'', menuContent_display = DisplayNone,
             menuContent = [\<lparr>li_id = 3, span_text = Some ''x''\<rparr>,
                            \<lparr>li_id = 4, span_text = Some ''y''\<rparr>,
                            \<lparr>li_id = 5, span_text = Some ''z''\<rparr>]\<rparr>,
          MenuContainer
            \<lparr>menuTitle = code_units_of ''ALPHA'', menuContent_display = DisplayNone,
             menuContent = [\<lparr>li_id = 0, span_text = Some ''one''\<rparr>,
                            \<lparr>li_id = 1, span_text = Some ''two''\<rparr>]\<rparr>,
          Li \<lparr>li_id = 2, span_text = Some ''beta-solo''\<rparr>])"
  by code_simp

text \<open>
  C3. A list whose only item is titled \<open>constructor-x\<close> passes the readiness probe and
  makes \<^verbatim>\<open>processRepositories\<close> raise: the key \<open>constructor\<close> is found in the prototype,
  no array is created for it, and \<^verbatim>\<open>push\<close> is called on a function.
\<close>

theorem processRepositories_raises_on_inherited_key:
  "is_document_ready (Some [Li \<lparr>li_id = 0, span_text = Some ''constructor-x''\<rparr>]) = Inr True
   \<and> processRepositories (Some [Li \<lparr>li_id = 0, span_text = Some ''constructor-x''\<rparr>])
       = Inl TypeError"
  by code_simp

section \<open>Navigation monitor\<close>

lemma checkPage_off_page:
  "\<not> on_repositories_page s \<Longrightarrow>
     checkPage st s = (st\<lparr>isOnRepositoriesPage := False\<rparr>, NotRun)"
  by (cases s) (auto simp: checkPage_def on_repositories_page_def Let_def)

lemma checkPage_processed:
  "on_repositories_page s \<Longrightarrow> isOnRepositoriesPage st \<Longrightarrow> hasProcessedRepositories st \<Longrightarrow>
     checkPage st s = (st, NotRun)"
  by (cases s) (auto simp: checkPage_def on_repositories_page_def Let_def)

lemma checkPage_completes:
  assumes "on_repositories_page s" "\<not> (isOnRepositoriesPage st \<and> hasProcessedRepositories st)"
    "pipeline_completes s"
  shows "\<exists>d. checkPage st s =
     (\<lparr>isOnRepositoriesPage = True, hasProcessedRepositories = True\<rparr>, Processed d)"
  using assms
  by (cases s)
     (auto simp: checkPage_def on_repositories_page_def pipeline_completes_def Let_def
        split: sum.splits)

lemma checkPage_pending:
  assumes "on_repositories_page s" "\<not> (isOnRepositoriesPage st \<and> hasProcessedRepositories st)"
    "\<not> pipeline_completes s"
  shows "\<exists>out. checkPage st s =
     (\<lparr>isOnRepositoriesPage = True, hasProcessedRepositories = False\<rparr>, out)
     \<and> \<not> is_Processed out"
  using assms
  by (cases s)
     (auto simp: checkPage_def on_repositories_page_def pipeline_completes_def Let_def
        split: sum.splits)

lemma runs_Cons:
  "runs (startChecking st (s # samples)) =
     (if is_Processed (snd (checkPage st s)) then 1 else 0)
     + runs (startChecking (fst (checkPage st s)) samples)"
  by (simp add: runs_def split: prod.splits)

lemma runs_Nil: "runs (startChecking st []) = 0"
  by (simp add: runs_def)

lemma startChecking_processed:
  assumes "isOnRepositoriesPage st" "hasProcessedRepositories st"
    "\<forall>s\<in>set extra. on_repositories_page s"
  shows "startChecking st extra = (st, replicate (length extra) NotRun)"
  using assms by (induction extra) (auto simp: checkPage_processed)

lemma runs_block:
  assumes "\<not> (isOnRepositoriesPage st \<and> hasProcessedRepositories st)"
    "\<forall>s\<in>set block. on_repositories_page s"
  shows "runs (startChecking st block) = (if \<exists>s\<in>set block. pipeline_completes s then 1 else 0)
    \<and> (block \<noteq> [] \<longrightarrow> fst (startChecking st block) =
          \<lparr>isOnRepositoriesPage = True,
           hasProcessedRepositories = (\<exists>s\<in>set block. pipeline_completes s)\<rparr>)"
  using assms
proof (induction block arbitrary: st)
  case Nil
  show ?case by (simp add: runs_def)
next
  case (Cons s block)
  let ?done = "\<lparr>isOnRepositoriesPage = True, hasProcessedRepositories = True\<rparr>"
  let ?pending = "\<lparr>isOnRepositoriesPage = True, hasProcessedRepositories = False\<rparr>"
  from Cons.prems have s: "on_repositories_page s" and block: "\<forall>s\<in>set block. on_repositories_page s"
    by simp_all
  show ?case
  proof (cases "pipeline_completes s")
    case True
    from checkPage_completes [OF s Cons.prems(1) True] obtain d where
        step: "checkPage st s = (?done, Processed d)"
      by blast
    have rest: "startChecking ?done block = (?done, replicate (length block) NotRun)"
      using block by (intro startChecking_processed) simp_all
    show ?thesis
      using True by (simp add: step rest runs_def)
  next
    case False
    from checkPage_pending [OF s Cons.prems(1) False] obtain out where
        step: "checkPage st s = (?pending, out)" and out: "\<not> is_Processed out"
      by blast
    have IH: "runs (startChecking ?pending block) =
          (if \<exists>s\<in>set block. pipeline_completes s then 1 else 0)
        \<and> (block \<noteq> [] \<longrightarrow> fst (startChecking ?pending block) =
          \<lparr>isOnRepositoriesPage = True,
           hasProcessedRepositories = (\<exists>s\<in>set block. pipeline_completes s)\<rparr>)"
      using block by (intro Cons.IH) simp_all
    obtain st'' outs where rest: "startChecking ?pending block = (st'', outs)"
      by (cases "startChecking ?pending block")
    show ?thesis
      using False out IH rest by (cases "block = []") (auto simp: step runs_def)
  qed
qed

lemma checkPage_budget:
  "(if is_Processed (snd (checkPage st s)) then 1 else 0)
     + (if isOnRepositoriesPage (fst (checkPage st s))
           \<and> \<not> hasProcessedRepositories (fst (checkPage st s)) then 1 else 0)
   \<le> (if on_repositories_page s \<and> \<not> isOnRepositoriesPage st then 1 else 0)
     + (if isOnRepositoriesPage st \<and> \<not> hasProcessedRepositories st then 1 else (0::nat))
   \<and> isOnRepositoriesPage (fst (checkPage st s)) = on_repositories_page s"
  by (cases s)
     (auto simp: checkPage_def on_repositories_page_def Let_def split: sum.splits)

lemma runs_le_arrivals:
  "runs (startChecking st samples)
     \<le> arrivals (isOnRepositoriesPage st) samples
       + (if isOnRepositoriesPage st \<and> \<not> hasProcessedRepositories st then 1 else 0)"
proof (induction samples arbitrary: st)
  case Nil
  show ?case by (simp add: runs_def)
next
  case (Cons s samples)
  define st' where "st' = fst (checkPage st s)"
  define P :: nat where "P = (if is_Processed (snd (checkPage st s)) then 1 else 0)"
  define B' :: nat where
    "B' = (if isOnRepositoriesPage st' \<and> \<not> hasProcessedRepositories st' then 1 else 0)"
  define A :: nat where
    "A = (if on_repositories_page s \<and> \<not> isOnRepositoriesPage st then 1 else 0)"
  define B :: nat where
    "B = (if isOnRepositoriesPage st \<and> \<not> hasProcessedRepositories st then 1 else 0)"
  have on: "isOnRepositoriesPage st' = on_repositories_page s"
    using checkPage_budget [of st s] by (simp add: st'_def)
  have 1: "runs (startChecking st (s # samples)) = P + runs (startChecking st' samples)"
    unfolding P_def st'_def by (rule runs_Cons)
  have 2: "runs (startChecking st' samples) \<le> arrivals (on_repositories_page s) samples + B'"
    using Cons.IH [of st'] by (simp add: on B'_def)
  have 3: "P + B' \<le> A + B"
    using checkPage_budget [of st s] unfolding P_def B'_def A_def B_def st'_def by blast
  have 4: "arrivals (isOnRepositoriesPage st) (s # samples) =
      A + arrivals (on_repositories_page s) samples"
    by (simp add: A_def on_repositories_page_def Let_def)
  have "runs (startChecking st (s # samples)) \<le> arrivals (isOnRepositoriesPage st) (s # samples) + B"
    using 1 2 3 4 by linarith
  then show ?case by (simp add: B_def)
qed

lemma fst_startChecking_Cons:
  "fst (startChecking st (s # samples)) = fst (startChecking (fst (checkPage st s)) samples)"
  by (simp split: prod.splits)

lemma runs_append:
  "runs (startChecking st (xs @ ys)) =
     runs (startChecking st xs) + runs (startChecking (fst (startChecking st xs)) ys)"
proof (induction xs arbitrary: st)
  case Nil
  show ?case by (simp add: runs_def)
next
  case (Cons x xs)
  show ?case
    by (simp only: append_Cons runs_Cons fst_startChecking_Cons Cons.IH)
qed

lemma runs_arrive_ready_depart_arrive_ready:
  assumes u: "string_includes u ''/repositories''" and v: "\<not> string_includes v ''/repositories''"
    and d1: "pipeline_completes (u, d1)" and d4: "pipeline_completes (u, d4)"
  shows "runs (startChecking initial_state [(u, d0), (u, d1), (v, d2), (u, d3), (u, d4)]) = 2"
proof -
  let ?done = "\<lparr>isOnRepositoriesPage = True, hasProcessedRepositories = True\<rparr>"
  let ?left = "\<lparr>isOnRepositoriesPage = False, hasProcessedRepositories = True\<rparr>"
  have first: "runs (startChecking initial_state [(u, d0), (u, d1)]) = 1
      \<and> fst (startChecking initial_state [(u, d0), (u, d1)]) = ?done"
    using runs_block [of initial_state "[(u, d0), (u, d1)]"] u d1
    by (simp add: initial_state_def on_repositories_page_def)
  have depart: "checkPage ?done (v, d2) = (?left, NotRun)"
    using checkPage_off_page [of "(v, d2)" ?done] v
    by (simp add: on_repositories_page_def)
  have second: "runs (startChecking ?left [(u, d3), (u, d4)]) = 1"
    using runs_block [of ?left "[(u, d3), (u, d4)]"] u d4
    by (simp add: on_repositories_page_def)
  have "runs (startChecking initial_state ([(u, d0), (u, d1)] @ (v, d2) # [(u, d3), (u, d4)])) =
      1 + runs (startChecking ?done ((v, d2) # [(u, d3), (u, d4)]))"
    using first by (simp only: runs_append)
  also have "runs (startChecking ?done ((v, d2) # [(u, d3), (u, d4)])) = 1"
    using second by (simp only: runs_Cons depart fst_conv snd_conv is_Processed.simps if_False)
  finally show ?thesis by simp
qed

text \<open>On the document of a sample the pipeline runs to the end exactly when the probe
  says ready and no key names a property of the prototype.\<close>

lemma pipeline_completes_iff:
  "pipeline_completes s \<longleftrightarrow>
     is_document_ready (snd s) = Inr True
     \<and> (\<forall>c. snd s = Some c \<longrightarrow>
           (\<forall>r\<in>set (getRepositoriesData c).
              map_of Object_prototype (prefix_of (title r)) = None))"
  using processRepositories_returns [of "snd s"]
  by (auto simp: pipeline_completes_def split: sum.splits)

text \<open>On a ready list with an inherited key the call raises at every tick and the
  processed flag stays unset: no run to the end, one arrival.\<close>

lemma raising_pipeline_called_at_every_tick:
  "startChecking initial_state
     [(repositories_url, Some inherited_key_list), (repositories_url, Some inherited_key_list),
      (repositories_url, Some inherited_key_list)]
   = (\<lparr>isOnRepositoriesPage = True, hasProcessedRepositories = False\<rparr>,
      [Raised TypeError, Raised TypeError, Raised TypeError])"
  by code_simp

text \<open>
  C2, as amended. Started in the initial state, the pipeline runs to the end at most
  once for each arrival. In an arrival (a block of samples on the repositories page,
  entered from off the page) it runs to the end exactly once when some sample of the
  block finds the document ready and the pipeline returns on it, and not at all
  otherwise. Once an arrival has been processed, any number of further samples on the
  page leave the state as it is and run nothing; a sample off the page only records
  the departure. The sequence arrive, ready, depart, arrive, ready, with the pipeline
  returning on the documents of both ready samples, runs the pipeline to the end exactly
  twice. Calls of the pipeline that raise are not counted: the statement says nothing
  about their number.
\<close>

theorem pipeline_runs_once_per_ready_arrival:
  "runs (startChecking initial_state samples) \<le> arrivals False samples
   \<and> (\<not> isOnRepositoriesPage st \<and> (\<forall>s\<in>set block. on_repositories_page s) \<longrightarrow>
        runs (startChecking st block) = (if \<exists>s\<in>set block. pipeline_completes s then 1 else 0))
   \<and> (isOnRepositoriesPage st' \<and> hasProcessedRepositories st'
        \<and> (\<forall>s\<in>set extra. on_repositories_page s) \<longrightarrow>
        startChecking st' extra = (st', replicate (length extra) NotRun))
   \<and> (\<not> on_repositories_page s \<longrightarrow>
        checkPage st'' s = (st''\<lparr>isOnRepositoriesPage := False\<rparr>, NotRun))
   \<and> (string_includes u ''/repositories'' \<and> \<not> string_includes v ''/repositories''
        \<and> pipeline_completes (u, d1) \<and> pipeline_completes (u, d4) \<longrightarrow>
        runs (startChecking initial_state [(u, d0), (u, d1), (v, d2), (u, d3), (u, d4)]) = 2)"
proof (intro conjI impI)
  show "runs (startChecking initial_state samples) \<le> arrivals False samples"
    using runs_le_arrivals [of initial_state samples] by (simp add: initial_state_def)
next
  assume "\<not> isOnRepositoriesPage st \<and> (\<forall>s\<in>set block. on_repositories_page s)"
  then show "runs (startChecking st block) =
      (if \<exists>s\<in>set block. pipeline_completes s then 1 else 0)"
    using runs_block [of st block] by simp
next
  assume "isOnRepositoriesPage st' \<and> hasProcessedRepositories st'
      \<and> (\<forall>s\<in>set extra. on_repositories_page s)"
  then show "startChecking st' extra = (st', replicate (length extra) NotRun)"
    by (simp add: startChecking_processed)
next
  assume "\<not> on_repositories_page s"
  then show "checkPage st'' s = (st''\<lparr>isOnRepositoriesPage := False\<rparr>, NotRun)"
    by (rule checkPage_off_page)
next
  assume "string_includes u ''/repositories'' \<and> \<not> string_includes v ''/repositories''
      \<and> pipeline_completes (u, d1) \<and> pipeline_completes (u, d4)"
  then show "runs (startChecking initial_state [(u, d0), (u, d1), (v, d2), (u, d3), (u, d4)]) = 2"
    using runs_arrive_ready_depart_arrive_ready [of u v d1 d4 d0 d2 d3] by blast
qed

theorem pipeline_runs_once_per_ready_arrival_witness:
  "runs (startChecking initial_state
      [(repositories_url, None), (repositories_url, Some scenario), (other_url, None),
       (repositories_url, None), (repositories_url, Some example_list)]) = 2
   \<and> runs (startChecking initial_state [(repositories_url, None), (repositories_url, Some scenario)]) = 1
   \<and> startChecking done_state [(repositories_url, Some scenario), (repositories_url, Some scenario)]
       = (done_state, [NotRun, NotRun])
   \<and> checkPage done_state (other_url, None) = (done_state\<lparr>isOnRepositoriesPage := False\<rparr>, NotRun)"
proof -
  have u: "string_includes repositories_url ''/repositories''"
    by code_simp
  have v: "\<not> string_includes other_url ''/repositories''"
    by code_simp
  have d1: "pipeline_completes (repositories_url, Some scenario)"
    by code_simp
  have d4: "pipeline_completes (repositories_url, Some example_list)"
    by code_simp
  have i: "\<not> isOnRepositoriesPage initial_state"
    by (simp add: initial_state_def)
  have dn: "isOnRepositoriesPage done_state \<and> hasProcessedRepositories done_state"
    by (simp add: done_state_def)
  show ?thesis
    using pipeline_runs_once_per_ready_arrival
      [where st = initial_state
         and block = "[(repositories_url, None), (repositories_url, Some scenario)]"
         and st' = done_state
         and extra = "[(repositories_url, Some scenario), (repositories_url, Some scenario)]"
         and st'' = done_state and s = "(other_url, None)"
         and u = repositories_url and v = other_url
         and ?d0.0 = None and ?d1.0 = "Some scenario" and ?d2.0 = None and ?d3.0 = None
         and ?d4.0 = "Some example_list"]
      u v d1 d4 i dn
    by (auto simp: on_repositories_page_def)
qed

text \<open>
  C2 as stated fails on an arrival that is left before the document is ready: one
  arrival, no run.
\<close>

theorem arrival_without_run_counterexample:
  "arrivals False [(repositories_url, None), (other_url, None)] = 1
   \<and> runs (startChecking initial_state [(repositories_url, None), (other_url, None)]) = 0"
  by code_simp

end
